theory Spec2Isabelle
  imports Main "HOL-Library.Multiset" "HOL-Library.Monad_Syntax" "HOL-Library.Word"
    "HOL-Library.Product_Lexorder"
begin

unbundle bit_operations_syntax

section \<open>Errors\<close>

text \<open>
  A failed \<^verbatim>\<open>assert\<close> raises \<^verbatim>\<open>AssertionError\<close> with the message of the statement (empty
  when the statement gives none); \<^verbatim>\<open>ValueError\<close> is what the \<^verbatim>\<open>math\<close> module and numpy
  raise. A function that can raise returns \<open>error + 'a\<close>, with \<open>Inl\<close> for the exception.
\<close>

datatype error = AssertionError string | ValueError string

section \<open>mergesort.py\<close>

text \<open>
  The body of \<^verbatim>\<open>merge\<close> is a while loop over the two remaining inputs that appends
  the smaller head to \<^verbatim>\<open>result\<close>, followed by one \<^verbatim>\<open>extend\<close> with whichever
  input is left. \<open>merge_loop\<close> is that loop with \<^verbatim>\<open>result\<close> as its accumulator; the
  last two equations are the \<^verbatim>\<open>if a: ... else: ...\<close> after the loop.
\<close>

fun merge_loop :: "'a::linorder list \<Rightarrow> 'a list \<Rightarrow> 'a list \<Rightarrow> 'a list" where
  "merge_loop result (x # a) (y # b) =
     (if x \<le> y then merge_loop (result @ [x]) a (y # b)
      else merge_loop (result @ [y]) (x # a) b)"
| "merge_loop result (x # a) [] = result @ (x # a)"
| "merge_loop result [] b = result @ b"

definition merge :: "'a::linorder list \<Rightarrow> 'a list \<Rightarrow> 'a list" where
  "merge a b = merge_loop [] a b"

text \<open>
  \<^verbatim>\<open>mergesort\<close> tests \<^verbatim>\<open>len(l) == 1\<close> only, so on the empty list it calls itself on the
  empty list again. The recursion is therefore not well-founded on all lists, and the
  model is the least fixed point in the option domain: \<open>None\<close> stands for a call that
  never returns. \<^verbatim>\<open>int(len(l) / 2)\<close> is \<open>length l div 2\<close>.
\<close>

partial_function (option) mergesort :: "'a::linorder list \<Rightarrow> 'a list option" where
  "mergesort l =
     (if length l = 1 then Some l
      else do {
        a \<leftarrow> mergesort (take (length l div 2) l);
        b \<leftarrow> mergesort (drop (length l div 2) l);
        Some (merge a b)
      })"

declare mergesort.simps [code]

text \<open>The same merge written without the accumulator, used to reason about the loop.\<close>

fun merge_direct :: "'a::linorder list \<Rightarrow> 'a list \<Rightarrow> 'a list" where
  "merge_direct (x # a) (y # b) =
     (if x \<le> y then x # merge_direct a (y # b) else y # merge_direct (x # a) b)"
| "merge_direct (x # a) [] = x # a"
| "merge_direct [] b = b"

section \<open>karatsuba.py\<close>

text \<open>
  Python integers are unbounded, so they are \<open>int\<close>. \<^verbatim>\<open>x.bit_length()\<close> is the number of
  binary digits of \<open>\<bar>x\<bar>\<close>, zero for zero.
\<close>

fun bits :: "nat \<Rightarrow> nat" where
  "bits n = (if n = 0 then 0 else Suc (bits (n div 2)))"

declare bits.simps [simp del]

definition bit_length :: "int \<Rightarrow> nat" where
  "bit_length x = bits (nat \<bar>x\<bar>)"

text \<open>
  \<^verbatim>\<open>_split_int\<close>: \<^verbatim>\<open>n >> l\<close> is \<open>drop_bit l n\<close> and \<^verbatim>\<open>((2 ** l) - 1) & n\<close> is a bitwise
  conjunction. The split position is a \<open>nat\<close>: the callers pass half of a bit length.
\<close>

definition split_int :: "int \<Rightarrow> nat \<Rightarrow> int \<times> int" where
  "split_int n l = (let a = drop_bit l n; b = (2 ^ l - 1) AND n in (a, b))"

text \<open>
  \<^verbatim>\<open>_karatsuba\<close> (the leading underscore is not part of an Isabelle name, so the private
  function carries a prime). Nothing in its body bounds the recursion for every pair of
  integers, so it is again a least fixed point, \<open>None\<close> meaning that the call does not
  return. \<^verbatim>\<open>int(n/2)\<close> is \<open>n div 2\<close>; \<^verbatim>\<open>v << s\<close> is \<open>push_bit s v\<close>.
\<close>

partial_function (option) karatsuba' :: "int \<Rightarrow> int \<Rightarrow> int option" where
  "karatsuba' x y =
     (let x_l = bit_length x; y_l = bit_length y in
      if x_l = 0 \<or> y_l = 0 then Some 0
      else if x_l = 1 then Some y
      else if y_l = 1 then Some x
      else
        let n = max x_l y_l;
            half_n = n div 2
        in case split_int x half_n of (a, b) \<Rightarrow>
           case split_int y half_n of (c, d) \<Rightarrow> do {
             ac \<leftarrow> karatsuba' a c;
             bd \<leftarrow> karatsuba' b d;
             abcd \<leftarrow> karatsuba' (a + b) (c + d);
             let zz = abcd - ac - bd;
             Some (push_bit (push_bit 1 half_n) ac + push_bit half_n zz + bd)
           })"

declare karatsuba'.simps [code]

text \<open>
  \<^verbatim>\<open>karatsuba\<close> checks its operands first. The two assertions \<^verbatim>\<open>x == int(x)\<close> and
  \<^verbatim>\<open>y == int(y)\<close> hold of every integer and have no branch here.
\<close>

definition karatsuba :: "int \<Rightarrow> int \<Rightarrow> (error + int) option" where
  "karatsuba x y =
     (if \<not> x \<ge> 0 then Some (Inl (AssertionError []))
      else if \<not> y \<ge> 0 then Some (Inl (AssertionError []))
      else map_option Inr (karatsuba' x y))"

section \<open>closestpoints.py\<close>

type_synonym point = "int \<times> int"

definition distance :: "point \<Rightarrow> point \<Rightarrow> int" where
  "distance p q = (fst p - fst q) ^ 2 + (snd p - snd q) ^ 2"

text \<open>A distance is an integer or \<^verbatim>\<open>math.inf\<close>.\<close>

datatype num = Num int | Inf

fun le :: "num \<Rightarrow> num \<Rightarrow> bool" where
  "le (Num a) (Num b) = (a \<le> b)"
| "le _ Inf = True"
| "le Inf (Num _) = False"

fun lt :: "num \<Rightarrow> num \<Rightarrow> bool" where
  "lt (Num a) (Num b) = (a < b)"
| "lt (Num _) Inf = True"
| "lt Inf _ = False"

text \<open>The merge of this module compares the second components.\<close>

fun cp_merge_loop :: "point list \<Rightarrow> point list \<Rightarrow> point list \<Rightarrow> point list" where
  "cp_merge_loop result (x # a) (y # b) =
     (if snd x \<le> snd y then cp_merge_loop (result @ [x]) a (y # b)
      else cp_merge_loop (result @ [y]) (x # a) b)"
| "cp_merge_loop result (x # a) [] = result @ (x # a)"
| "cp_merge_loop result [] b = result @ b"

definition cp_merge :: "point list \<Rightarrow> point list \<Rightarrow> point list" where
  "cp_merge a b = cp_merge_loop [] a b"

text \<open>Again the merge without its accumulator, for reasoning.\<close>

fun cp_merge_direct :: "point list \<Rightarrow> point list \<Rightarrow> point list" where
  "cp_merge_direct (x # a) (y # b) =
     (if snd x \<le> snd y then x # cp_merge_direct a (y # b) else y # cp_merge_direct (x # a) b)"
| "cp_merge_direct (x # a) [] = x # a"
| "cp_merge_direct [] b = b"

text \<open>
  The strip test \<^verbatim>\<open>median - best_d <= p[0] <= median + best_d\<close>; with an infinite
  \<^verbatim>\<open>best_d\<close> both comparisons hold.
\<close>

fun in_strip :: "int \<Rightarrow> num \<Rightarrow> point \<Rightarrow> bool" where
  "in_strip median (Num best_d) p = (median - best_d \<le> fst p \<and> fst p \<le> median + best_d)"
| "in_strip median Inf p = True"

text \<open>
  The state of the strip search is \<^verbatim>\<open>best_d\<close> with the pair \<^verbatim>\<open>(best_p, best_q)\<close>; the
  source sets the two points to \<^verbatim>\<open>None\<close> together, so the pair is one optional value.
  \<open>strip_step\<close> is the body of the inner loop, \<open>strip_search\<close> the two loops:
  \<^verbatim>\<open>strip[idx+1:idx+8]\<close> is \<open>take 7 (drop (idx + 1) strip)\<close>.
\<close>

type_synonym best = "num \<times> (point \<times> point) option"

definition strip_step :: "point \<Rightarrow> point \<Rightarrow> best \<Rightarrow> best" where
  "strip_step q1 q2 st =
     (let d = distance q1 q2 in
      if lt (Num d) (fst st)
      then (Num d, if fst q1 \<le> fst q2 then Some (q1, q2) else Some (q2, q1))
      else st)"

definition strip_search :: "point list \<Rightarrow> best \<Rightarrow> best" where
  "strip_search strip st =
     fold (\<lambda>idx. fold (strip_step (strip ! idx)) (take 7 (drop (idx + 1) strip)))
       [0..<length strip] st"

text \<open>The part of \<^verbatim>\<open>_closest_pair\<close> after the two recursive calls.\<close>

definition combine ::
  "point list \<Rightarrow> (point \<times> point) option \<times> point list \<Rightarrow>
   (point \<times> point) option \<times> point list \<Rightarrow> (point \<times> point) option \<times> point list" where
  "combine points left right =
     (let midpoint = length points div 2;
          d_left = (case fst left of None \<Rightarrow> Inf | Some (p, q) \<Rightarrow> Num (distance p q));
          d_right = (case fst right of None \<Rightarrow> Inf | Some (p, q) \<Rightarrow> Num (distance p q));
          best = (if le d_left d_right then (d_left, fst left) else (d_right, fst right));
          y_sorted = cp_merge (snd left) (snd right);
          median = fst (points ! midpoint);
          strip = filter (in_strip median (fst best)) y_sorted
      in (snd (strip_search strip best), y_sorted))"

text \<open>
  \<^verbatim>\<open>_closest_pair\<close> has base cases for two points and for one point only; on the empty list
  it would call itself on the empty list, so it is a least fixed point as well.
  \<^verbatim>\<open>sorted(points, key=lambda pt: pt[1])\<close> is a stable sort by the second component,
  which is \<open>sort_key snd\<close>.
\<close>

partial_function (option) closest_pair' ::
  "point list \<Rightarrow> ((point \<times> point) option \<times> point list) option" where
  "closest_pair' points =
     (if length points = 2
      then Some (Some (points ! 0, points ! 1), sort_key snd points)
      else if length points = 1 then Some (None, points)
      else do {
        left \<leftarrow> closest_pair' (take (length points div 2) points);
        right \<leftarrow> closest_pair' (drop (length points div 2) points);
        Some (combine points left right)
      })"

declare closest_pair'.simps [code]

text \<open>
  \<^verbatim>\<open>closest_pair\<close> takes a list whose entries may be \<^verbatim>\<open>None\<close>, checks it, sorts it by the
  first component and returns the pair found.
\<close>

definition closest_pair ::
  "point option list \<Rightarrow> (error + (point \<times> point) option) option" where
  "closest_pair points =
     (if \<not> length points \<ge> 2
      then Some (Inl (AssertionError ''Finding a closest pair requires 2 or more elements!''))
      else if list_ex (\<lambda>p. p = None) points then Some (Inl (AssertionError []))
      else map_option (\<lambda>r. Inr (fst r)) (closest_pair' (sort_key fst (map the points))))"

text \<open>
  The brute-force minimum of the module's own randomised test: the list is sorted, and
  every point is compared with the points after it.
\<close>

definition brute_force_min :: "point list \<Rightarrow> num" where
  "brute_force_min points =
     (let ps = sort points in
      fold (\<lambda>i. fold (\<lambda>q best_d. if lt (Num (distance (ps ! i) q)) best_d
                                   then Num (distance (ps ! i) q) else best_d)
                    (drop (i + 1) ps))
        [0..<length ps] Inf)"

section \<open>Properties of mergesort.py and of the two merges\<close>

lemma merge_loop_direct: "merge_loop result a b = result @ merge_direct a b"
  by (induction result a b rule: merge_loop.induct) simp_all

lemma merge_eq_direct: "merge a b = merge_direct a b"
  by (simp add: merge_def merge_loop_direct)

lemma mset_merge_direct: "mset (merge_direct a b) = mset a + mset b"
  by (induction a b rule: merge_direct.induct) simp_all

lemma set_merge_direct: "set (merge_direct a b) = set a \<union> set b"
  by (induction a b rule: merge_direct.induct) auto

lemma sorted_merge_direct: "sorted a \<Longrightarrow> sorted b \<Longrightarrow> sorted (merge_direct a b)"
  by (induction a b rule: merge_direct.induct) (auto simp: set_merge_direct)

lemma merge_direct_Nil2: "merge_direct a [] = a"
  by (cases a) simp_all

lemma filter_merge_direct:
  "sorted a \<Longrightarrow> filter (\<lambda>v. v = k) (merge_direct a b) = filter (\<lambda>v. v = k) a @ filter (\<lambda>v. v = k) b"
proof (induction a b rule: merge_direct.induct)
  case (1 x a y b)
  show ?case
  proof (cases "x \<le> y")
    case True
    then show ?thesis using 1 by simp
  next
    case False
    have "filter (\<lambda>v. v = k) (x # a) = []" if "y = k"
      using that False "1.prems" by (auto simp: filter_empty_conv)
    then show ?thesis using False 1 by auto
  qed
qed simp_all

lemma cp_merge_loop_direct: "cp_merge_loop result a b = result @ cp_merge_direct a b"
  by (induction result a b rule: cp_merge_loop.induct) simp_all

lemma cp_merge_eq_direct: "cp_merge a b = cp_merge_direct a b"
  by (simp add: cp_merge_def cp_merge_loop_direct)

lemma filter_cp_merge_direct:
  "sorted (map snd a) \<Longrightarrow>
   filter (\<lambda>p. snd p = k) (cp_merge_direct a b) =
   filter (\<lambda>p. snd p = k) a @ filter (\<lambda>p. snd p = k) b"
proof (induction a b rule: cp_merge_direct.induct)
  case (1 x a y b)
  show ?case
  proof (cases "snd x \<le> snd y")
    case True
    then show ?thesis using 1 by simp
  next
    case False
    have "filter (\<lambda>p. snd p = k) (x # a) = []" if "snd y = k"
      using that False "1.prems" by (auto simp: filter_empty_conv)
    then show ?thesis using False 1 by auto
  qed
qed simp_all

lemma mergesort_Some_nonempty:
  assumes "mergesort l = Some y"
  shows "l \<noteq> []"
proof (rule mergesort.raw_induct[where P = "\<lambda>l y. l \<noteq> []", OF _ assms])
  fix f :: "'a list \<Rightarrow> 'a list option" and l la
  assume IH: "\<And>x y. f x = Some y \<Longrightarrow> x \<noteq> []"
    and body: "(if length l = 1 then Some l
        else f (take (length l div 2) l) \<bind>
             (\<lambda>a. f (drop (length l div 2) l) \<bind> (\<lambda>b. Some (merge a b)))) = Some la"
  show "l \<noteq> []"
  proof
    assume "l = []"
    with body obtain a where "f [] = Some a"
      by (auto split: if_splits bind_splits)
    from IH[OF this] show False by simp
  qed
qed

lemma mergesort_returns:
  "l \<noteq> [] \<Longrightarrow> \<exists>ys. mergesort l = Some ys \<and> mset ys = mset l \<and> sorted ys"
proof (induction "length l" arbitrary: l rule: less_induct)
  case less
  show ?case
  proof (cases "length l = 1")
    case True
    then obtain x where "l = [x]" by (cases l) auto
    then show ?thesis by (simp add: mergesort.simps)
  next
    case False
    moreover have "length l \<noteq> 0" using less.prems by simp
    ultimately have len: "2 \<le> length l" by arith
    let ?m = "length l div 2"
    have "take ?m l \<noteq> []" "length (take ?m l) < length l" using len by auto
    from less.hyps[OF this(2) this(1)] obtain a where
      a: "mergesort (take ?m l) = Some a" "mset a = mset (take ?m l)" "sorted a" by blast
    have "drop ?m l \<noteq> []" "length (drop ?m l) < length l" using len by auto
    from less.hyps[OF this(2) this(1)] obtain b where
      b: "mergesort (drop ?m l) = Some b" "mset b = mset (drop ?m l)" "sorted b" by blast
    have "mergesort l = Some (merge a b)"
      using False a(1) b(1) by (subst mergesort.simps) simp
    moreover have "mset (merge a b) = mset l"
      using a(2) b(2) by (simp add: merge_eq_direct mset_merge_direct flip: mset_append)
    moreover have "sorted (merge a b)"
      using a(3) b(3) by (simp add: merge_eq_direct sorted_merge_direct)
    ultimately show ?thesis by blast
  qed
qed

text \<open>
  C4. On every list with at least one element \<^verbatim>\<open>mergesort\<close> returns, and what it returns
  is a permutation of the input in non-decreasing order.
\<close>

theorem mergesort_sorted_permutation:
  assumes "1 \<le> length l"
  shows "\<exists>ys. mergesort l = Some ys \<and> mset ys = mset l \<and> sorted ys"
proof -
  from assms have "l \<noteq> []" by auto
  then show ?thesis by (rule mergesort_returns)
qed

theorem mergesort_sorted_permutation_witness:
  "1 \<le> length [4, 1, 2, 5, 3 :: int]
   \<and> mergesort [4, 1, 2, 5, 3 :: int] = Some [1, 2, 3, 4, 5]
   \<and> (\<exists>ys. mergesort [4, 1, 2, 5, 3 :: int] = Some ys
          \<and> mset ys = mset [4, 1, 2, 5, 3] \<and> sorted ys)"
proof -
  have h: "1 \<le> length [4, 1, 2, 5, 3 :: int]" by simp
  have e: "mergesort [4, 1, 2, 5, 3 :: int] = Some [1, 2, 3, 4, 5]"
    by (simp add: mergesort.simps merge_def)
  from h e mergesort_sorted_permutation[OF h] show ?thesis by blast
qed

text \<open>
  C5. The merge of two sorted lists is sorted and holds exactly the elements of both,
  with their multiplicities; merging with the empty list on either side gives the other
  list back.
\<close>

theorem merge_sorted_union:
  assumes "sorted a" and "sorted b"
  shows "sorted (merge a b) \<and> mset (merge a b) = mset a + mset b
         \<and> merge a [] = a \<and> merge [] b = b"
  using assms
  by (simp add: merge_eq_direct sorted_merge_direct mset_merge_direct merge_direct_Nil2)

theorem merge_sorted_union_witness:
  "sorted [1, 3, 5 :: int] \<and> sorted [2, 3, 4 :: int]
   \<and> merge [1, 3, 5 :: int] [2, 3, 4] = [1, 2, 3, 3, 4, 5]
   \<and> sorted (merge [1, 3, 5 :: int] [2, 3, 4])
   \<and> mset (merge [1, 3, 5 :: int] [2, 3, 4]) = mset [1, 3, 5] + mset [2, 3, 4]
   \<and> merge [1, 3, 5 :: int] [] = [1, 3, 5] \<and> merge [] [2, 3, 4 :: int] = [2, 3, 4]"
proof -
  have s: "sorted [1, 3, 5 :: int]" "sorted [2, 3, 4 :: int]" by simp_all
  have e: "merge [1, 3, 5 :: int] [2, 3, 4] = [1, 2, 3, 3, 4, 5]" by (simp add: merge_def)
  show ?thesis using s e merge_sorted_union[OF s] by simp
qed

text \<open>
  C6. Both merges are stable. When the two heads are equal (for the merge of
  \<^verbatim>\<open>closestpoints.py\<close>: have equal second components) the head of the left input is
  emitted first; and for sorted inputs the elements with a given key appear in the output
  as those of the left input, in their order, followed by those of the right input.
\<close>

theorem merge_stable:
  assumes "sorted a" and "sorted b" and "sorted (map snd c)" and "sorted (map snd d)"
  shows "merge (x # a) (x # b) = x # merge a (x # b)
     \<and> filter (\<lambda>v. v = k) (merge a b) = filter (\<lambda>v. v = k) a @ filter (\<lambda>v. v = k) b
     \<and> (snd p = snd q \<longrightarrow> cp_merge (p # c) (q # d) = p # cp_merge c (q # d))
     \<and> filter (\<lambda>p. snd p = j) (cp_merge c d)
         = filter (\<lambda>p. snd p = j) c @ filter (\<lambda>p. snd p = j) d"
  using assms
  by (simp add: merge_eq_direct cp_merge_eq_direct filter_merge_direct filter_cp_merge_direct)

theorem merge_stable_witness:
  "sorted [1, 2 :: int] \<and> sorted [2, 3 :: int]
   \<and> sorted (map snd [(5 :: int, 1 :: int), (6, 2)])
   \<and> sorted (map snd [(7 :: int, 2 :: int), (8, 3)])
   \<and> snd (6 :: int, 2 :: int) = snd (7 :: int, 2 :: int)
   \<and> cp_merge [(5, 1), (6, 2)] [(7, 2), (8, 3)] = [(5, 1), (6, 2), (7, 2), (8, 3)]
   \<and> cp_merge ((6, 2) # []) ((7, 2) # [(8, 3)]) = (6, 2) # cp_merge [] ((7, 2) # [(8, 3)])
   \<and> filter (\<lambda>p. snd p = 2) (cp_merge [(5, 1), (6, 2)] [(7, 2), (8, 3)]) = [(6, 2), (7, 2)]
   \<and> filter (\<lambda>v. v = 2) (merge [1, 2 :: int] [2, 3]) = [2, 2]"
proof -
  have s: "sorted [1, 2 :: int]" "sorted [2, 3 :: int]"
    "sorted (map snd [(5 :: int, 1 :: int), (6, 2)])" "sorted (map snd [(7 :: int, 2 :: int), (8, 3)])"
    by simp_all
  have e: "cp_merge [(5, 1), (6, 2)] [(7, 2), (8, 3)] = [(5, 1), (6, 2), (7, 2), (8, 3)]"
    by (simp add: cp_merge_def)
  have e2: "cp_merge ((6, 2) # []) ((7, 2) # [(8, 3)]) = (6, 2) # cp_merge [] ((7, 2) # [(8, 3)])"
    by (simp add: cp_merge_def)
  show ?thesis
    using s e e2 merge_stable[OF s, of 2 2 "(6, 2)" "(7, 2)" 2] by simp
qed

text \<open>
  C9. \<^verbatim>\<open>mergesort\<close> does not return on the empty list: the empty list is not of length
  one, both halves of it are empty again, and the call unfolds to calls on the same
  argument. The empty list is the only input on which it does not return.
\<close>

theorem mergesort_empty_diverges:
  "length ([] :: 'a list) \<noteq> 1
   \<and> take (length ([] :: 'a list) div 2) [] = ([] :: 'a list)
   \<and> drop (length ([] :: 'a list) div 2) [] = ([] :: 'a list)
   \<and> mergesort ([] :: 'a :: linorder list)
       = mergesort [] \<bind> (\<lambda>a. mergesort [] \<bind> (\<lambda>b. Some (merge a b)))
   \<and> mergesort ([] :: 'a list) = None
   \<and> ((mergesort (l :: 'a list) = None) = (l = []))"
proof -
  have unfold: "mergesort ([] :: 'a list)
       = mergesort [] \<bind> (\<lambda>a. mergesort [] \<bind> (\<lambda>b. Some (merge a b)))"
    by (subst mergesort.simps) simp
  have none: "mergesort ([] :: 'a list) = None"
  proof (cases "mergesort ([] :: 'a list)")
    case (Some y)
    from mergesort_Some_nonempty[OF this] show ?thesis by simp
  qed simp
  have "(mergesort l = None) = (l = [])"
  proof
    assume "mergesort l = None"
    with mergesort_returns[of l] show "l = []" by auto
  next
    assume "l = []"
    with none show "mergesort l = None" by simp
  qed
  with unfold none show ?thesis by simp
qed

section \<open>Properties of karatsuba.py\<close>

lemma bits_0_iff: "bits n = 0 \<longleftrightarrow> n = 0"
  by (subst bits.simps) simp

lemma bits_1_iff: "bits n = Suc 0 \<longleftrightarrow> n = Suc 0"
proof -
  have "bits n = Suc 0 \<longleftrightarrow> n \<noteq> 0 \<and> bits (n div 2) = 0"
    by (subst bits.simps) simp
  also have "\<dots> \<longleftrightarrow> n \<noteq> 0 \<and> n div 2 = 0" by (simp add: bits_0_iff)
  also have "\<dots> \<longleftrightarrow> n = Suc 0" by arith
  finally show ?thesis .
qed

lemma bits_upper: "n < 2 ^ bits n"
proof (induction n rule: bits.induct)
  case (1 n)
  show ?case
  proof (cases "n = 0")
    case True
    then show ?thesis by simp
  next
    case False
    from 1[OF False] have "n div 2 < 2 ^ bits (n div 2)" .
    then have "n < 2 * 2 ^ bits (n div 2)" by arith
    moreover have "bits n = Suc (bits (n div 2))" using False by (subst bits.simps) simp
    ultimately show ?thesis by simp
  qed
qed

lemma bits_lower: "n \<noteq> 0 \<Longrightarrow> 2 ^ (bits n - 1) \<le> n"
proof (induction n rule: bits.induct)
  case (1 n)
  have eq: "bits n = Suc (bits (n div 2))" using "1.prems" by (subst bits.simps) simp
  show ?case
  proof (cases "n div 2 = 0")
    case True
    then have "bits (n div 2) = 0" by (simp add: bits_0_iff)
    with eq "1.prems" show ?thesis by simp
  next
    case False
    from "1.IH"[OF "1.prems" False] have "2 ^ (bits (n div 2) - 1) \<le> n div 2" .
    then have "2 * 2 ^ (bits (n div 2) - 1) \<le> n" by arith
    moreover have "bits (n div 2) \<noteq> 0" using False by (simp add: bits_0_iff)
    then have "(2::nat) * 2 ^ (bits (n div 2) - 1) = 2 ^ bits (n div 2)"
      by (cases "bits (n div 2)") simp_all
    ultimately show ?thesis using eq by simp
  qed
qed

lemma bit_length_0_iff: "bit_length x = 0 \<longleftrightarrow> x = 0"
  by (simp add: bit_length_def bits_0_iff)

lemma bit_length_1_iff: "0 \<le> x \<Longrightarrow> bit_length x = Suc 0 \<longleftrightarrow> x = 1"
proof -
  assume "0 \<le> x"
  then have "nat x = Suc 0 \<longleftrightarrow> x = 1" by arith
  then show ?thesis using \<open>0 \<le> x\<close> by (simp add: bit_length_def bits_1_iff)
qed

lemma bit_length_upper: "0 \<le> x \<Longrightarrow> x < 2 ^ bit_length x"
proof -
  assume "0 \<le> x"
  have "nat x < 2 ^ bits (nat x)" by (rule bits_upper)
  then have "int (nat x) < int (2 ^ bits (nat x))" by (simp only: of_nat_less_iff)
  then show ?thesis using \<open>0 \<le> x\<close> by (simp add: bit_length_def)
qed

lemma bit_length_lower: "0 < x \<Longrightarrow> 2 ^ (bit_length x - 1) \<le> x"
proof -
  assume "0 < x"
  then have "nat x \<noteq> 0" by simp
  from bits_lower[OF this] have "int (2 ^ (bits (nat x) - 1)) \<le> int (nat x)"
    by (simp only: of_nat_le_iff)
  then show ?thesis using \<open>0 < x\<close> by (simp add: bit_length_def)
qed

lemma split_int_div_mod: "split_int n l = (n div 2 ^ l, n mod 2 ^ l)"
proof -
  have "(2 ^ l - 1) AND n = take_bit l n"
    by (simp add: take_bit_eq_mask mask_eq_exp_minus_1 and.commute)
  then show ?thesis
    by (simp add: split_int_def drop_bit_eq_div take_bit_eq_mod)
qed

lemma karatsuba_identity:
  fixes a b c d :: int
  shows "push_bit (push_bit 1 h) (a * c) + push_bit h ((a + b) * (c + d) - a * c - b * d) + b * d
         = (a * 2 ^ h + b) * (c * 2 ^ h + d)"
proof -
  have "(2::int) ^ (h + h) = 2 ^ h * 2 ^ h" by (simp add: power_add)
  moreover have "h * 2 = h + h" by simp
  ultimately have "(2::int) ^ (h * 2) = 2 ^ h * 2 ^ h" "(2::int) ^ (h + h) = 2 ^ h * 2 ^ h"
    by (simp_all only:)
  then show ?thesis by (simp add: push_bit_eq_mult algebra_simps)
qed

lemma karatsuba'_correct: "0 \<le> x \<Longrightarrow> 0 \<le> y \<Longrightarrow> karatsuba' x y = Some (x * y)"
proof (induction "nat (x + y)" arbitrary: x y rule: less_induct)
  case less
  note nn = \<open>0 \<le> x\<close> \<open>0 \<le> y\<close>
  show ?case
  proof (cases "bit_length x = 0 \<or> bit_length y = 0")
    case True
    then have "x = 0 \<or> y = 0" by (simp add: bit_length_0_iff)
    then show ?thesis using True by (subst karatsuba'.simps) auto
  next
    case n0: False
    show ?thesis
    proof (cases "bit_length x = 1")
      case True
      then have "x = 1" using nn by (simp add: bit_length_1_iff)
      then show ?thesis using n0 True by (subst karatsuba'.simps) simp
    next
      case x1: False
      show ?thesis
      proof (cases "bit_length y = 1")
        case True
        then have "y = 1" using nn by (simp add: bit_length_1_iff)
        then show ?thesis using n0 x1 True by (subst karatsuba'.simps) simp
      next
        case y1: False
        define n where "n = max (bit_length x) (bit_length y)"
        define h where "h = n div 2"
        define a where "a = x div 2 ^ h"
        define b where "b = x mod 2 ^ h"
        define c where "c = y div 2 ^ h"
        define d where "d = y mod 2 ^ h"
        have xl: "2 \<le> bit_length x" and yl: "2 \<le> bit_length y" using n0 x1 y1 by arith+
        then have n2: "2 \<le> n" by (simp add: n_def)
        then have h1: "1 \<le> h" and hn: "h \<le> n - 1" by (simp_all add: h_def)
        have xpos: "0 < x" "0 < y" using n0 nn by (auto simp: bit_length_0_iff order_less_le)
        have x2: "2 \<le> x"
        proof -
          have "(2::int) ^ 1 \<le> 2 ^ (bit_length x - 1)" using xl by (intro power_increasing) auto
          with bit_length_lower[OF xpos(1)] show ?thesis by simp
        qed
        have y2: "2 \<le> y"
        proof -
          have "(2::int) ^ 1 \<le> 2 ^ (bit_length y - 1)" using yl by (intro power_increasing) auto
          with bit_length_lower[OF xpos(2)] show ?thesis by simp
        qed
        have p2: "(2::int) \<le> 2 ^ h" using h1 power_increasing[of 1 h "2::int"] by simp
        have xeq: "x = a * 2 ^ h + b" and yeq: "y = c * 2 ^ h + d"
          by (simp_all only: a_def b_def c_def d_def div_mult_mod_eq)
        have a0: "0 \<le> a" and c0: "0 \<le> c" using nn by (simp_all add: a_def c_def pos_imp_zdiv_nonneg_iff)
        have b0: "0 \<le> b" and d0: "0 \<le> d" by (simp_all add: b_def d_def)
        have bx: "b \<le> x" and dy: "d \<le> y" using nn by (simp_all add: b_def d_def zmod_le_nonneg_dividend)
        have ax: "a < x"
        proof -
          have "a * 2 \<le> a * 2 ^ h" using a0 p2 by (intro mult_left_mono) auto
          also have "\<dots> \<le> x" using xeq b0 by simp
          finally show ?thesis using x2 by simp
        qed
        have cy: "c < y"
        proof -
          have "c * 2 \<le> c * 2 ^ h" using c0 p2 by (intro mult_left_mono) auto
          also have "\<dots> \<le> y" using yeq d0 by simp
          finally show ?thesis using y2 by simp
        qed
        have abx: "a + b \<le> x"
        proof -
          have "a * 1 \<le> a * 2 ^ h" using a0 p2 by (intro mult_left_mono) auto
          then show ?thesis using xeq by simp
        qed
        have cdy: "c + d \<le> y"
        proof -
          have "c * 1 \<le> c * 2 ^ h" using c0 p2 by (intro mult_left_mono) auto
          then show ?thesis using yeq by simp
        qed
        have big: "2 ^ h \<le> x \<or> 2 ^ h \<le> y"
        proof -
          have "bit_length x = n \<or> bit_length y = n" by (auto simp: n_def max_def)
          then show ?thesis
          proof
            assume e: "bit_length x = n"
            have p: "(2::int) ^ h \<le> 2 ^ (n - 1)" using hn by (intro power_increasing) auto
            have q: "2 ^ (n - 1) \<le> x" using bit_length_lower[OF xpos(1)] e by simp
            from p q show ?thesis by linarith
          next
            assume e: "bit_length y = n"
            have p: "(2::int) ^ h \<le> 2 ^ (n - 1)" using hn by (intro power_increasing) auto
            have q: "2 ^ (n - 1) \<le> y" using bit_length_lower[OF xpos(2)] e by simp
            from p q show ?thesis by linarith
          qed
        qed
        have strict: "b + d < x + y \<and> (a + b) + (c + d) < x + y"
        proof -
          from big show ?thesis
          proof
            assume "2 ^ h \<le> x"
            moreover have "b < 2 ^ h" by (simp add: b_def)
            ultimately have "a \<noteq> 0" using xeq by auto
            with a0 have "1 \<le> a" by simp
            then have "a * 2 \<le> a * 2 ^ h" using p2 by (intro mult_left_mono) auto
            then have "b < x \<and> a + b < x" using xeq \<open>1 \<le> a\<close> by linarith
            then show ?thesis using dy cdy by linarith
          next
            assume "2 ^ h \<le> y"
            moreover have "d < 2 ^ h" by (simp add: d_def)
            ultimately have "c \<noteq> 0" using yeq by auto
            with c0 have "1 \<le> c" by simp
            then have "c * 2 \<le> c * 2 ^ h" using p2 by (intro mult_left_mono) auto
            then have "d < y \<and> c + d < y" using yeq \<open>1 \<le> c\<close> by linarith
            then show ?thesis using bx abx by linarith
          qed
        qed
        have r1: "karatsuba' a c = Some (a * c)"
          using ax cy a0 c0 nn by (intro less.hyps) auto
        have r2: "karatsuba' b d = Some (b * d)"
          using strict b0 d0 nn by (intro less.hyps) auto
        have r3: "karatsuba' (a + b) (c + d) = Some ((a + b) * (c + d))"
          using strict a0 b0 c0 d0 nn by (intro less.hyps) auto
        have "karatsuba' x y =
            Some (push_bit (push_bit 1 h) (a * c)
                  + push_bit h ((a + b) * (c + d) - a * c - b * d) + b * d)"
          using n0 x1 y1 r1 r2 r3
          by (subst karatsuba'.simps)
             (simp add: Let_def split_int_div_mod n_def[symmetric] h_def[symmetric]
                a_def[symmetric] b_def[symmetric] c_def[symmetric] d_def[symmetric])
        also have "\<dots> = Some (x * y)"
          by (simp only: karatsuba_identity flip: xeq yeq)
        finally show ?thesis .
      qed
    qed
  qed
qed


text \<open>
  C3. For non-negative operands \<^verbatim>\<open>karatsuba\<close> returns the product; multiplying by zero gives
  zero and multiplying by one gives the other operand.
\<close>

theorem karatsuba_product:
  assumes "0 \<le> x" and "0 \<le> y"
  shows "karatsuba x y = Some (Inr (x * y))
         \<and> karatsuba x 0 = Some (Inr 0) \<and> karatsuba x 1 = Some (Inr x)"
  using assms karatsuba'_correct[of x y] karatsuba'_correct[of x 0] karatsuba'_correct[of x 1]
  by (simp add: karatsuba_def)

theorem karatsuba_product_witness:
  "(0 :: int) \<le> 11 \<and> (0 :: int) \<le> 9 \<and> karatsuba 11 9 = Some (Inr 99)
   \<and> karatsuba 11 0 = Some (Inr 0) \<and> karatsuba 11 1 = Some (Inr 11)"
proof -
  have e: "karatsuba 11 9 = Some (Inr 99)" by code_simp
  show ?thesis using e karatsuba_product[of 11 9] by simp
qed

text \<open>
  C10. \<^verbatim>\<open>_split_int(n, l)\<close> returns a high part \<open>a\<close> and a low part \<open>b\<close> with
  \<open>n = a * 2 ^ l + b\<close> and \<open>0 \<le> b < 2 ^ l\<close>; and with both operands split at the same
  position the recombination of \<^verbatim>\<open>_karatsuba\<close> is the product of the operands.
\<close>

theorem split_int_reconstructs:
  "fst (split_int n l) * 2 ^ l + snd (split_int n l) = n
   \<and> 0 \<le> snd (split_int n l) \<and> snd (split_int n l) < 2 ^ l
   \<and> (case split_int x h of (a, b) \<Rightarrow> case split_int y h of (c, d) \<Rightarrow>
        push_bit (push_bit 1 h) (a * c) + push_bit h ((a + b) * (c + d) - a * c - b * d) + b * d)
      = x * y"
proof -
  have 1: "fst (split_int n l) * 2 ^ l + snd (split_int n l) = n"
    by (simp only: split_int_div_mod fst_conv snd_conv div_mult_mod_eq)
  have 2: "0 \<le> snd (split_int n l)" and 3: "snd (split_int n l) < 2 ^ l"
    by (simp_all add: split_int_div_mod)
  have 4: "(case split_int x h of (a, b) \<Rightarrow> case split_int y h of (c, d) \<Rightarrow>
        push_bit (push_bit 1 h) (a * c) + push_bit h ((a + b) * (c + d) - a * c - b * d) + b * d)
      = x * y"
    by (simp only: split_int_div_mod prod.case karatsuba_identity div_mult_mod_eq)
  from 1 2 3 4 show ?thesis by (intro conjI)
qed

end
